theory Spec2Isabelle
  imports Main "HOL-Library.Word"
begin

unbundle bit_operations_syntax

section \<open>Data model of \<^verbatim>\<open>ring_buffer.h\<close>\<close>

text \<open>
  \<^verbatim>\<open>typedef uint32_t index_t;\<close> The two cursors are 32-bit unsigned counters that wrap
  by overflow. \<^verbatim>\<open>size_t\<close> is taken as the 64-bit unsigned type of an LP64 target; every
  conversion from \<^verbatim>\<open>index_t\<close> to \<^verbatim>\<open>size_t\<close> is a zero extension (\<open>ucast\<close>).
\<close>

type_synonym index_t = "32 word"
type_synonym size_t = "64 word"

text \<open>
  \<^verbatim>\<open>ringbuffer_type_def( NAME, TYPE, LEN )\<close> generates
  \<^verbatim>\<open>struct { index_t input; index_t output; TYPE data_buffer[ LEN ]; NAME_push_callback_t push_callback; }\<close>.
  The array is a list whose length is \<^verbatim>\<open>LEN\<close>. The callback is a function pointer
  \<^verbatim>\<open>bool (*)( NAME *rb, TYPE *data )\<close>: it receives the buffer itself and may change the
  cursors and the array before it answers. It is modelled as a function on the three data
  fields that returns its answer and the fields as it left them (the pointer field itself
  is only written by \<^verbatim>\<open>NAME_init\<close>).
\<close>

text \<open>The field \<^verbatim>\<open>output\<close> is named \<open>output_idx\<close>: \<open>output\<close> is a keyword of Isabelle.\<close>

record 'a ring_buffer_data =
  input :: index_t
  output_idx :: index_t
  data_buffer :: "'a list"

type_synonym 'a push_callback_t = "'a ring_buffer_data \<Rightarrow> 'a \<Rightarrow> bool \<times> 'a ring_buffer_data"

record 'a ring_buffer = "'a ring_buffer_data" +
  push_callback :: "'a push_callback_t option"

text \<open>
  Memory reached through a pointer \<^verbatim>\<open>TYPE *p\<close> (the \<^verbatim>\<open>dest\<close> and \<^verbatim>\<open>src\<close> arguments of the
  string functions): the cell \<^verbatim>\<open>p[ i ]\<close> is \<open>p i\<close>, a write is a function update. The C
  functions know no bound of that memory; neither does the model. The memory is assumed
  disjoint from the buffer.
\<close>

type_synonym 'a mem = "nat \<Rightarrow> 'a"

section \<open>Helper macros\<close>

text \<open>
  Modelled from the spec: \<^verbatim>\<open>ARRAY_COUNT\<close> comes from \<^verbatim>\<open>utility.h\<close>, which is not part of the
  sources at hand. It is the number of elements of an array (the capacity \<open>N\<close> of the spec),
  a \<^verbatim>\<open>size_t\<close>.
\<close>

definition ARRAY_COUNT :: "'a list \<Rightarrow> size_t" where
  "ARRAY_COUNT a = of_nat (length a)"

text \<open>\<^verbatim>\<open>#define BUFFER_LEN( NAME ) ARRAY_COUNT( ( ( NAME * )0 )->data_buffer )\<close>\<close>

definition BUFFER_LEN :: "'a ring_buffer \<Rightarrow> size_t" where
  "BUFFER_LEN rb = ARRAY_COUNT (data_buffer rb)"

text \<open>
  \<^verbatim>\<open>#define RINGBUF_WRAP( rb, index ) ( ( index ) & ( ARRAY_COUNT( ( rb )->data_buffer ) - 1 ) )\<close>
  The index is an \<^verbatim>\<open>index_t\<close>, converted to \<^verbatim>\<open>size_t\<close> for the conjunction. The macros
  only look at the data fields, so they apply to the buffer and to what a callback sees.
\<close>

definition RINGBUF_WRAP :: "('a, 'm) ring_buffer_data_scheme \<Rightarrow> index_t \<Rightarrow> nat" where
  "RINGBUF_WRAP rb index = unat ((ucast index :: size_t) AND (ARRAY_COUNT (data_buffer rb) - 1))"

text \<open>
  \<^verbatim>\<open>#define RINGBUF_CURR_i( rb ) ( rb )->data_buffer[ RINGBUF_WRAP ( ( rb ), ( rb )->input ) ]\<close>
  is used as the target of an assignment: \<open>RINGBUF_CURR_i_set rb v\<close> is the buffer after
  \<^verbatim>\<open>RINGBUF_CURR_i( rb ) = v\<close>.
\<close>

definition RINGBUF_CURR_i_set ::
  "('a, 'm) ring_buffer_data_scheme \<Rightarrow> 'a \<Rightarrow> ('a, 'm) ring_buffer_data_scheme" where
  "RINGBUF_CURR_i_set rb v = rb\<lparr>data_buffer := (data_buffer rb)[RINGBUF_WRAP rb (input rb) := v]\<rparr>"

text \<open>
  Modelled from the spec: \<^verbatim>\<open>RINGBUF_CURR_o( rb, offset )\<close> chooses between its two forms
  with the macros \<^verbatim>\<open>TEST\<close> and \<^verbatim>\<open>EFIRST\<close> of \<^verbatim>\<open>cprep_tricks.h\<close>, which is not part of the
  sources at hand. With an offset it is
  \<^verbatim>\<open>( rb )->data_buffer[ RINGBUF_WRAP ( ( rb ), ( rb )->output + offset ) ]\<close>, without one
  \<^verbatim>\<open>( rb )->data_buffer[ RINGBUF_WRAP ( ( rb ), ( rb )->output ) ]\<close>, the case \<open>offset = 0\<close>.
  The sum is an \<^verbatim>\<open>index_t\<close> and wraps.
\<close>

definition RINGBUF_CURR_o_index :: "('a, 'm) ring_buffer_data_scheme \<Rightarrow> index_t \<Rightarrow> nat" where
  "RINGBUF_CURR_o_index rb offset = RINGBUF_WRAP rb (output_idx rb + offset)"

definition RINGBUF_CURR_o :: "('a, 'm) ring_buffer_data_scheme \<Rightarrow> index_t \<Rightarrow> 'a" where
  "RINGBUF_CURR_o rb offset = data_buffer rb ! RINGBUF_CURR_o_index rb offset"

section \<open>Core buffer functions, for \<^verbatim>\<open>NAME = rb\<close>\<close>

text \<open>\<^verbatim>\<open>rb->input = rb->output = 0; rb->push_callback = push_callback;\<close>\<close>

definition rb_init :: "'a ring_buffer \<Rightarrow> 'a push_callback_t option \<Rightarrow> 'a ring_buffer" where
  "rb_init rb cb = rb\<lparr>input := 0, output_idx := 0, push_callback := cb\<rparr>"

text \<open>\<^verbatim>\<open>return ( rb->input - rb->output );\<close> as a \<^verbatim>\<open>size_t\<close>\<close>

definition rb_count :: "'a ring_buffer \<Rightarrow> size_t" where
  "rb_count rb = ucast (input rb - output_idx rb)"

text \<open>\<^verbatim>\<open>return 0 == NAME_count( rb );\<close>\<close>

definition rb_empty :: "'a ring_buffer \<Rightarrow> bool" where
  "rb_empty rb = (0 = rb_count rb)"

text \<open>\<^verbatim>\<open>return NAME_count( rb ) == BUFFER_LEN( NAME );\<close>\<close>

definition rb_full :: "'a ring_buffer \<Rightarrow> bool" where
  "rb_full rb = (rb_count rb = BUFFER_LEN rb)"

text \<open>The call \<^verbatim>\<open>rb->push_callback( rb, data )\<close>: the answer, and the buffer as the callback left it.\<close>

definition call_push_callback :: "'a push_callback_t \<Rightarrow> 'a ring_buffer \<Rightarrow> 'a \<Rightarrow> bool \<times> 'a ring_buffer" where
  "call_push_callback cb rb v =
     (case cb (ring_buffer_data.truncate rb) v of
        (ok, d) \<Rightarrow> (ok, rb\<lparr>input := input d, output_idx := output_idx d, data_buffer := data_buffer d\<rparr>))"

text \<open>
  \<^verbatim>\<open>if ( NAME_full( rb ) ) return false;
  if ( rb->push_callback ) { if( !rb->push_callback( rb, data ) ) return false; }
  else { RINGBUF_CURR_i( rb ) = *data; }
  rb->input++; return true;\<close>
\<close>

definition rb_push_front :: "'a ring_buffer \<Rightarrow> 'a \<Rightarrow> bool \<times> 'a ring_buffer" where
  "rb_push_front rb v =
     (if rb_full rb then (False, rb)
      else case push_callback rb of
        Some cb \<Rightarrow>
          (case call_push_callback cb rb v of
             (ok, rb') \<Rightarrow> if \<not> ok then (False, rb') else (True, rb'\<lparr>input := input rb' + 1\<rparr>))
      | None \<Rightarrow>
          (let rb' = RINGBUF_CURR_i_set rb v in (True, rb'\<lparr>input := input rb' + 1\<rparr>)))"

text \<open>\<^verbatim>\<open>if ( NAME_empty( rb ) ) return false; rb->output++; return true;\<close>\<close>

definition rb_pop_back :: "'a ring_buffer \<Rightarrow> bool \<times> 'a ring_buffer" where
  "rb_pop_back rb = (if rb_empty rb then (False, rb) else (True, rb\<lparr>output_idx := output_idx rb + 1\<rparr>))"

text \<open>
  \<^verbatim>\<open>if ( NAME_count( rb ) > offset ) return &( RINGBUF_CURR_o( rb, offset ) ); return NULL;\<close>
  The pointer into \<^verbatim>\<open>data_buffer\<close> is the index of the cell it points to, \<^verbatim>\<open>NULL\<close> is
  \<open>None\<close>. The function takes the buffer by pointer; the buffer after the call is the second
  component.
\<close>

definition rb_peek :: "'a ring_buffer \<Rightarrow> index_t \<Rightarrow> nat option \<times> 'a ring_buffer" where
  "rb_peek rb offset =
     (if rb_count rb > ucast offset then (Some (RINGBUF_CURR_o_index rb offset), rb) else (None, rb))"

section \<open>Termination of the loops\<close>

lemma unat_ucast_index: "unat (ucast (w :: index_t) :: size_t) = unat w"
  by transfer simp

lemma unat_rb_count: "unat (rb_count rb) = unat (input rb - output_idx rb)"
  by (simp add: rb_count_def unat_ucast_index)

lemma rb_count_0_iff: "rb_count rb = 0 \<longleftrightarrow> input rb = output_idx rb"
proof -
  have "rb_count rb = 0 \<longleftrightarrow> unat (rb_count rb) = 0"
    by (simp add: unat_eq_0)
  also have "\<dots> \<longleftrightarrow> input rb - output_idx rb = 0"
    by (simp add: unat_rb_count unat_eq_0)
  finally show ?thesis by simp
qed

lemma pop_decreases:
  assumes "rb_count rb \<noteq> 0"
  shows "unat (input rb - (output_idx rb + 1)) < unat (input rb - output_idx rb)"
proof -
  from assms have "input rb - output_idx rb \<noteq> 0"
    by (simp add: rb_count_0_iff)
  then have "unat (input rb - output_idx rb - 1) < unat (input rb - output_idx rb)"
    by (rule measure_unat)
  then show ?thesis by (simp add: diff_diff_eq)
qed

lemma full_not_full_after_store:
  assumes "rb_full rb" and "length b = length (data_buffer rb)"
  shows "\<not> rb_full (rb\<lparr>data_buffer := b, input := input rb + 1\<rparr>)"
proof
  assume "rb_full (rb\<lparr>data_buffer := b, input := input rb + 1\<rparr>)"
  with assms have "rb_count (rb\<lparr>data_buffer := b, input := input rb + 1\<rparr>) = rb_count rb"
    by (simp add: rb_full_def BUFFER_LEN_def ARRAY_COUNT_def)
  then have "unat (input rb + 1 - output_idx rb) = unat (input rb - output_idx rb)"
    by (simp add: word_unat_eq_iff unat_rb_count)
  then have "input rb + 1 - output_idx rb = input rb - output_idx rb"
    by (simp add: word_unat_eq_iff)
  then show False by simp
qed

section \<open>String functions of \<^verbatim>\<open>ring_buffer_string.h\<close>, for \<^verbatim>\<open>NAME = rb\<close>\<close>

text \<open>
  \<^verbatim>\<open>size_t count = 0;
  for ( ; len && NAME_full( rb ); rb->input++, --len )
  { RINGBUF_CURR_i( rb ) = src[ count++ ]; }
  return count;\<close>
  The loop goes on while \<^verbatim>\<open>len\<close> is not zero and the buffer \<^emph>\<open>is\<close> full. The parameter is
  declared as \<^verbatim>\<open>data\<close>, the body reads \<^verbatim>\<open>src\<close>: the model has the one source pointer
  \<open>src\<close>. The function stores directly and never calls \<^verbatim>\<open>push_callback\<close>.
\<close>

function push_string_loop ::
  "'a ring_buffer \<Rightarrow> 'a mem \<Rightarrow> size_t \<Rightarrow> size_t \<Rightarrow> size_t \<times> 'a ring_buffer" where
  "push_string_loop rb src len count =
     (if len \<noteq> 0 \<and> rb_full rb
      then let rb' = RINGBUF_CURR_i_set rb (src (unat count))
           in push_string_loop (rb'\<lparr>input := input rb' + 1\<rparr>) src (len - 1) (count + 1)
      else (count, rb))"
  by pat_completeness auto
termination
proof (relation "measure (\<lambda>(rb, src, len, count). if rb_full rb then 1 else 0)")
  fix rb :: "'a ring_buffer" and src :: "'a mem" and len count :: size_t and rb'
  assume "len \<noteq> 0 \<and> rb_full rb" and "rb' = RINGBUF_CURR_i_set rb (src (unat count))"
  then have "\<not> rb_full (rb'\<lparr>input := input rb' + 1\<rparr>)"
    using full_not_full_after_store [of rb "(data_buffer rb)[RINGBUF_WRAP rb (input rb) := src (unat count)]"]
    by (simp add: RINGBUF_CURR_i_set_def)
  with \<open>len \<noteq> 0 \<and> rb_full rb\<close>
  show "((rb'\<lparr>input := input rb' + 1\<rparr>, src, len - 1, count + 1), (rb, src, len, count))
        \<in> measure (\<lambda>(rb, src, len, count). if rb_full rb then 1 else 0)"
    by simp
qed simp

definition rb_push_string :: "'a ring_buffer \<Rightarrow> 'a mem \<Rightarrow> size_t \<Rightarrow> size_t \<times> 'a ring_buffer" where
  "rb_push_string rb src len = push_string_loop rb src len 0"

text \<open>
  \<^verbatim>\<open>size_t count = 0;
  if ( NAME_empty( rb ) ) return 0;
  for ( ; limit-- && NAME_count( rb ); rb->output++ ) { dest[ count++ ] = RINGBUF_CURR_o( rb ); }
  return count;\<close>
  The result is the returned count, the buffer and the destination memory after the call.
\<close>

function pop_string_loop ::
  "'a ring_buffer \<Rightarrow> 'a mem \<Rightarrow> size_t \<Rightarrow> size_t \<Rightarrow> size_t \<times> 'a ring_buffer \<times> 'a mem" where
  "pop_string_loop rb dest limit count =
     (if limit \<noteq> 0 \<and> rb_count rb \<noteq> 0
      then pop_string_loop (rb\<lparr>output_idx := output_idx rb + 1\<rparr>)
             (dest(unat count := RINGBUF_CURR_o rb 0)) (limit - 1) (count + 1)
      else (count, rb, dest))"
  by pat_completeness auto
termination
  by (relation "measure (\<lambda>(rb, dest, limit, count). unat (input rb - output_idx rb))")
     (simp_all add: pop_decreases)

definition rb_pop_string ::
  "'a ring_buffer \<Rightarrow> 'a mem \<Rightarrow> size_t \<Rightarrow> size_t \<times> 'a ring_buffer \<times> 'a mem" where
  "rb_pop_string rb dest limit =
     (if rb_empty rb then (0, rb, dest) else pop_string_loop rb dest limit 0)"

text \<open>
  \<^verbatim>\<open>size_t count = 0;
  if ( NAME_empty( rb ) ) return 0;
  for ( ; --limit && NAME_count( rb ); rb->output++ ) { dest[ count++ ] = RINGBUF_CURR_o( rb ); }
  dest[ count ] = ( ( DATA_TYPE( NAME ) )0 );
  return count;\<close>
  The limit is decremented \<^emph>\<open>before\<close> it is tested, in \<^verbatim>\<open>size_t\<close> arithmetic.
\<close>

function pop_cstring_loop ::
  "'a ring_buffer \<Rightarrow> 'a mem \<Rightarrow> size_t \<Rightarrow> size_t \<Rightarrow> size_t \<times> 'a ring_buffer \<times> 'a mem" where
  "pop_cstring_loop rb dest limit count =
     (if limit - 1 \<noteq> 0 \<and> rb_count rb \<noteq> 0
      then pop_cstring_loop (rb\<lparr>output_idx := output_idx rb + 1\<rparr>)
             (dest(unat count := RINGBUF_CURR_o rb 0)) (limit - 1) (count + 1)
      else (count, rb, dest))"
  by pat_completeness auto
termination
  by (relation "measure (\<lambda>(rb, dest, limit, count). unat (input rb - output_idx rb))")
     (simp_all add: pop_decreases)

definition rb_pop_cstring ::
  "('a::zero) ring_buffer \<Rightarrow> 'a mem \<Rightarrow> size_t \<Rightarrow> size_t \<times> 'a ring_buffer \<times> 'a mem" where
  "rb_pop_cstring rb dest limit =
     (if rb_empty rb then (0, rb, dest)
      else case pop_cstring_loop rb dest limit 0 of
        (count, rb', dest') \<Rightarrow> (count, rb', dest'(unat count := 0)))"

text \<open>
  \<^verbatim>\<open>ringbuffer_pop_cstring_cond_def( NAME, SUFFIX, COND, BEHAV )\<close> defines
  \<^verbatim>\<open>NAME_pop_string_SUFFIX\<close>, here for \<^verbatim>\<open>SUFFIX = cond\<close>:
  \<^verbatim>\<open>size_t count = 0;
  if ( NAME_empty( rb ) ) return 0;
  for ( ; --limit && NAME_count( rb ); rb->output++ ) {
    PASTE_cond( COND, BEHAV )
    dest[ count++ ] = RINGBUF_CURR_o( rb ); }
  dest[ count ] = ( ( DATA_TYPE( NAME ) )0 );
  return count;\<close>
  \<^verbatim>\<open>COND\<close> is an expression over \<^verbatim>\<open>rb\<close> (the header's examples are
  \<^verbatim>\<open>0 == RINGBUF_CURR_o( rb )\<close> for the null character and
  \<^verbatim>\<open>0x002a == RINGBUF_CURR_o( rb )\<close>): a predicate on the buffer. \<^verbatim>\<open>BEHAV\<close> is the statement run when it holds; the header's two uses are
  \<^verbatim>\<open>continue\<close>, which goes on with the increment \<^verbatim>\<open>rb->output++\<close> of the \<^verbatim>\<open>for\<close>, and
  \<^verbatim>\<open>break\<close>, which leaves the loop.
\<close>

datatype behav = Continue | Break

text \<open>
  Modelled from the spec: \<^verbatim>\<open>PASTE_cond( COND, BEHAV )\<close> is built from the macro \<^verbatim>\<open>TEST\<close> of
  \<^verbatim>\<open>cprep_tricks.h\<close>, which is not part of the sources at hand. For a condition and a
  behaviour that are both given it is \<^verbatim>\<open>if( COND ) { BEHAV; }\<close>, evaluated before the
  element is copied.
\<close>

function pop_string_cond_loop ::
  "('a ring_buffer \<Rightarrow> bool) \<Rightarrow> behav \<Rightarrow> 'a ring_buffer \<Rightarrow> 'a mem \<Rightarrow> size_t \<Rightarrow> size_t
   \<Rightarrow> size_t \<times> 'a ring_buffer \<times> 'a mem" where
  "pop_string_cond_loop COND BEHAV rb dest limit count =
     (if limit - 1 \<noteq> 0 \<and> rb_count rb \<noteq> 0
      then if COND rb
           then (case BEHAV of
                   Continue \<Rightarrow>
                     pop_string_cond_loop COND BEHAV (rb\<lparr>output_idx := output_idx rb + 1\<rparr>)
                       dest (limit - 1) count
                 | Break \<Rightarrow> (count, rb, dest))
           else pop_string_cond_loop COND BEHAV (rb\<lparr>output_idx := output_idx rb + 1\<rparr>)
                  (dest(unat count := RINGBUF_CURR_o rb 0)) (limit - 1) (count + 1)
      else (count, rb, dest))"
  by pat_completeness auto
termination
  by (relation "measure (\<lambda>(COND, BEHAV, rb, dest, limit, count). unat (input rb - output_idx rb))")
     (simp_all add: pop_decreases)

definition rb_pop_string_cond ::
  "(('a::zero) ring_buffer \<Rightarrow> bool) \<Rightarrow> behav \<Rightarrow> 'a ring_buffer \<Rightarrow> 'a mem \<Rightarrow> size_t
   \<Rightarrow> size_t \<times> 'a ring_buffer \<times> 'a mem" where
  "rb_pop_string_cond COND BEHAV rb dest limit =
     (if rb_empty rb then (0, rb, dest)
      else case pop_string_cond_loop COND BEHAV rb dest limit 0 of
        (count, rb', dest') \<Rightarrow> (count, rb', dest'(unat count := 0)))"

declare push_string_loop.simps [simp del]
declare pop_string_loop.simps [simp del]
declare pop_cstring_loop.simps [simp del]
declare pop_string_cond_loop.simps [simp del]

section \<open>Notions used to state the properties\<close>

text \<open>
  The element at logical position \<open>k\<close> of the buffer, counted from the consumer end: the
  cell that \<^verbatim>\<open>RINGBUF_CURR_o( rb, k )\<close> names and that \<^verbatim>\<open>peek( k )\<close> points to.
\<close>

definition oldest :: "('a, 'm) ring_buffer_data_scheme \<Rightarrow> nat \<Rightarrow> 'a" where
  "oldest rb k = RINGBUF_CURR_o rb (of_nat k)"

text \<open>
  The destination memory after the \<open>m\<close> oldest elements of \<open>rb\<close> have been written to the
  cells \<open>start\<close>, \<open>start + 1\<close>, ... in this order; every other cell is as before.
\<close>

definition transferred ::
  "('a, 'm) ring_buffer_data_scheme \<Rightarrow> 'a mem \<Rightarrow> nat \<Rightarrow> nat \<Rightarrow> 'a mem" where
  "transferred rb dest start m =
     (\<lambda>k. if start \<le> k \<and> k < start + m then oldest rb (k - start) else dest k)"

text \<open>The invariant of the spec, \<^verbatim>\<open>0 <= count <= N\<close>; the count is unsigned.\<close>

definition rb_inv :: "'a ring_buffer \<Rightarrow> bool" where
  "rb_inv rb \<longleftrightarrow> unat (rb_count rb) \<le> length (data_buffer rb)"

text \<open>
  A callback leaves the cursors alone on a call when the buffer it hands back has the
  \<^verbatim>\<open>input\<close> and the \<^verbatim>\<open>output\<close> it was given (and an array of the same length, which no C
  callback can change).
\<close>

definition keeps_cursors :: "'a push_callback_t \<Rightarrow> 'a ring_buffer \<Rightarrow> 'a \<Rightarrow> bool" where
  "keeps_cursors cb rb v \<longleftrightarrow>
     input (snd (call_push_callback cb rb v)) = input rb \<and>
     output_idx (snd (call_push_callback cb rb v)) = output_idx rb \<and>
     length (data_buffer (snd (call_push_callback cb rb v))) = length (data_buffer rb)"

section \<open>Example callbacks\<close>

text \<open>
  The callback that the header comment of \<^verbatim>\<open>ring_buffer.h\<close> gives as its example:
  \<^verbatim>\<open>rb->data_buffer[ RINGBUF_WRAP ( rb, rb->input++ ) ] = data; return true;\<close>
  It stores the value and advances \<^verbatim>\<open>input\<close> itself.
\<close>

definition push_front_callback :: "'a push_callback_t" where
  "push_front_callback d v =
     (True, d\<lparr>data_buffer := (data_buffer d)[RINGBUF_WRAP d (input d) := v], input := input d + 1\<rparr>)"

text \<open>A callback that stores the value and leaves the cursors alone, and one that refuses every value.\<close>

definition store_callback :: "'a push_callback_t" where
  "store_callback d v = (True, d\<lparr>data_buffer := (data_buffer d)[RINGBUF_WRAP d (input d) := v]\<rparr>)"


section \<open>Example buffers\<close>

text \<open>A buffer of capacity 4 over bytes, just initialised without a callback: it is empty.\<close>

definition fresh4 :: "8 word ring_buffer" where
  "fresh4 = rb_init \<lparr>input = 9, output_idx = 3, data_buffer = [0, 0, 0, 0], push_callback = None\<rparr> None"

text \<open>
  A buffer of capacity 8 whose cursors have moved on: it holds the two bytes 4 and 5, after
  five pushes and three pops.
\<close>

definition two_left :: "8 word ring_buffer" where
  "two_left = \<lparr>input = 5, output_idx = 3, data_buffer = [1, 2, 3, 4, 5, 0, 0, 0], push_callback = None\<rparr>"

text \<open>A buffer of capacity 2 that holds one byte, with each of the three callbacks.\<close>

definition one_of_two :: "8 word push_callback_t option \<Rightarrow> 8 word ring_buffer" where
  "one_of_two cb = \<lparr>input = 2, output_idx = 1, data_buffer = [0, 7], push_callback = cb\<rparr>"

text \<open>A full buffer of capacity 2.\<close>

definition full2 :: "8 word ring_buffer" where
  "full2 = \<lparr>input = 3, output_idx = 1, data_buffer = [8, 7], push_callback = None\<rparr>"

text \<open>
  A buffer of capacity 8 that holds the four bytes \<open>a b c d\<close> (97, 98, 99, 100) across the
  end of the array, and one of capacity 4 that holds 1, 0, 2. A destination memory filled
  with 255.
\<close>

definition abcd :: "8 word ring_buffer" where
  "abcd = \<lparr>input = 10, output_idx = 6, data_buffer = [99, 100, 0, 0, 0, 0, 97, 98], push_callback = None\<rparr>"

definition one_zero_two :: "8 word ring_buffer" where
  "one_zero_two = \<lparr>input = 6, output_idx = 3, data_buffer = [0, 2, 5, 1], push_callback = None\<rparr>"

definition junk :: "8 word mem" where
  "junk = (\<lambda>_. 255)"

text \<open>The two conditions of the header's examples: the current element is 0, or is \<^verbatim>\<open>0x2a\<close>.\<close>

definition is_zero :: "8 word ring_buffer \<Rightarrow> bool" where
  "is_zero rb \<longleftrightarrow> 0 = RINGBUF_CURR_o rb 0"

definition is_star :: "8 word ring_buffer \<Rightarrow> bool" where
  "is_star rb \<longleftrightarrow> 0x2a = RINGBUF_CURR_o rb 0"

text \<open>
  An empty buffer of capacity 8 and the source \<open>1 2 3 4\<close> of the spec's example for
  \<^verbatim>\<open>push_string\<close>.
\<close>

definition fresh8 :: "8 word ring_buffer" where
  "fresh8 = rb_init \<lparr>input = 0, output_idx = 0, data_buffer = [0, 0, 0, 0, 0, 0, 0, 0], push_callback = None\<rparr> None"

definition src1234 :: "8 word mem" where
  "src1234 = (\<lambda>i. [1, 2, 3, 4] ! i)"

text \<open>
  Two buffers of capacity 2 reached from initialisation: one initialised with the header's
  example callback, after one push and one pop; one initialised without a callback, after
  two pushes.
\<close>

definition one_pushed_popped :: "8 word ring_buffer" where
  "one_pushed_popped =
     snd (rb_pop_back (snd (rb_push_front (rb_init (one_of_two None) (Some push_front_callback)) 0)))"

definition two_pushed :: "8 word ring_buffer" where
  "two_pushed = snd (rb_push_front (snd (rb_push_front (rb_init (one_of_two None) None) 1)) 2)"

section \<open>Index arithmetic\<close>

lemma ucast_index_less:
  "(ucast (a :: index_t) :: size_t) < ucast (b :: index_t) \<longleftrightarrow> unat a < unat b"
  by (simp add: word_less_nat_alt unat_ucast_index)

text \<open>For a capacity that is not zero, a wrapped index is a valid index of the array.\<close>

lemma RINGBUF_WRAP_less:
  assumes "0 < length (data_buffer rb)" and "length (data_buffer rb) < 2 ^ 64"
  shows "RINGBUF_WRAP rb i < length (data_buffer rb)"
proof -
  let ?N = "length (data_buffer rb)"
  have "unat ((ucast i :: size_t) AND (of_nat ?N - 1)) \<le> unat (of_nat ?N - 1 :: size_t)"
    by (simp add: word_and_le1 word_le_nat_alt[symmetric])
  also have "\<dots> = ?N - 1"
    using assms
    by (simp add: unat_minus_one unat_of_nat word_unat_eq_iff)
  finally have "RINGBUF_WRAP rb i \<le> ?N - 1"
    by (simp add: RINGBUF_WRAP_def ARRAY_COUNT_def)
  with assms(1) show ?thesis by linarith
qed

text \<open>For a capacity that is a power of two, wrapping is the remainder modulo the capacity.\<close>

lemma RINGBUF_WRAP_pow2:
  assumes "length (data_buffer rb) = 2 ^ n" and "n < 64"
  shows "RINGBUF_WRAP rb i = unat i mod 2 ^ n"
proof -
  have "RINGBUF_WRAP rb i = unat ((ucast i :: size_t) AND mask n)"
    using assms by (simp add: RINGBUF_WRAP_def ARRAY_COUNT_def mask_eq_exp_minus_1)
  also have "\<dots> = unat (take_bit n (ucast i :: size_t))"
    by (simp add: take_bit_eq_mask)
  also have "\<dots> = take_bit n (unat i)"
    using assms(2) by (simp add: unsigned_take_bit_eq unat_ucast_index)
  finally show ?thesis by (simp add: take_bit_eq_mod)
qed

section \<open>\<^verbatim>\<open>pop_back\<close>\<close>

text \<open>
  C5. \<^verbatim>\<open>pop_back\<close> returns false exactly when the buffer is empty, and then leaves the
  buffer (both cursors included) as it is. Otherwise it returns true, advances \<^verbatim>\<open>output\<close>
  by exactly 1 (in \<^verbatim>\<open>index_t\<close> arithmetic) and changes nothing else: \<^verbatim>\<open>input\<close>, the
  callback and the whole array, the vacated cell included, keep their values.
\<close>

theorem rb_pop_back_spec:
  "(fst (rb_pop_back rb) = False \<longleftrightarrow> rb_empty rb) \<and>
   (rb_empty rb \<longrightarrow> snd (rb_pop_back rb) = rb) \<and>
   (\<not> rb_empty rb \<longrightarrow>
      fst (rb_pop_back rb) = True \<and>
      output_idx (snd (rb_pop_back rb)) = output_idx rb + 1 \<and>
      input (snd (rb_pop_back rb)) = input rb \<and>
      data_buffer (snd (rb_pop_back rb)) = data_buffer rb \<and>
      push_callback (snd (rb_pop_back rb)) = push_callback rb)"
  by (simp add: rb_pop_back_def)

theorem rb_pop_back_spec_witness:
  "rb_empty fresh4 \<and> rb_pop_back fresh4 = (False, fresh4) \<and>
   \<not> rb_empty two_left \<and> fst (rb_pop_back two_left) = True \<and>
   output_idx (snd (rb_pop_back two_left)) = 4 \<and>
   input (snd (rb_pop_back two_left)) = 5 \<and>
   data_buffer (snd (rb_pop_back two_left)) = [1, 2, 3, 4, 5, 0, 0, 0]"
proof -
  have e: "rb_empty fresh4"
    by (simp add: fresh4_def rb_init_def rb_empty_def rb_count_def)
  have n: "\<not> rb_empty two_left"
    by (simp add: two_left_def rb_empty_def rb_count_def)
  from e rb_pop_back_spec [of fresh4] have "rb_pop_back fresh4 = (False, fresh4)"
    by (simp add: prod_eq_iff)
  moreover from n rb_pop_back_spec [of two_left]
  have "fst (rb_pop_back two_left) = True \<and>
        output_idx (snd (rb_pop_back two_left)) = output_idx two_left + 1 \<and>
        input (snd (rb_pop_back two_left)) = input two_left \<and>
        data_buffer (snd (rb_pop_back two_left)) = data_buffer two_left"
    by simp
  ultimately show ?thesis using e n by (simp add: two_left_def)
qed

section \<open>\<^verbatim>\<open>peek\<close>\<close>

text \<open>
  C6. \<^verbatim>\<open>peek\<close> returns a pointer to the cell \<^verbatim>\<open>(output + offset) & (N - 1)\<close> of the array
  if \<^verbatim>\<open>offset < count()\<close> and \<^verbatim>\<open>NULL\<close> otherwise; in both cases the buffer after the call
  is the buffer before it. The index is written out: the sum is taken in \<^verbatim>\<open>index_t\<close>,
  widened to \<^verbatim>\<open>size_t\<close> and masked with \<open>N - 1\<close>, where \<open>N\<close> is the length of the array.
\<close>

theorem rb_peek_spec:
  "(unat offset < unat (rb_count rb) \<longrightarrow>
      fst (rb_peek rb offset) =
        Some (unat ((ucast (output_idx rb + offset) :: size_t) AND
                    (of_nat (length (data_buffer rb)) - 1)))) \<and>
   (\<not> unat offset < unat (rb_count rb) \<longrightarrow> fst (rb_peek rb offset) = None) \<and>
   snd (rb_peek rb offset) = rb"
  by (simp add: rb_peek_def word_less_nat_alt unat_ucast_index RINGBUF_CURR_o_index_def
      RINGBUF_WRAP_def ARRAY_COUNT_def)

theorem rb_peek_spec_witness:
  "unat (1 :: index_t) < unat (rb_count two_left) \<and>
   rb_peek two_left 1 = (Some 4, two_left) \<and> data_buffer two_left ! 4 = 5 \<and>
   \<not> unat (2 :: index_t) < unat (rb_count two_left) \<and>
   rb_peek two_left 2 = (None, two_left) \<and>
   unat (2 :: index_t) < unat (rb_count abcd) \<and>
   rb_peek abcd 2 = (Some 0, abcd) \<and> data_buffer abcd ! 0 = 99 \<and>
   unat (3 :: index_t) < unat (rb_count abcd) \<and>
   rb_peek abcd 3 = (Some 1, abcd) \<and> data_buffer abcd ! 1 = 100"
proof -
  have c: "rb_count two_left = 2" "rb_count abcd = 4"
    by (simp_all add: two_left_def abcd_def rb_count_def)
  have d: "output_idx two_left = 3" "length (data_buffer two_left) = 8"
    "output_idx abcd = 6" "length (data_buffer abcd) = 8"
    by (simp_all add: two_left_def abcd_def)
  from c rb_peek_spec [of 1 two_left] have "rb_peek two_left 1 = (Some 4, two_left)"
    by (simp add: prod_eq_iff d)
  moreover from c rb_peek_spec [of 2 two_left] have "rb_peek two_left 2 = (None, two_left)"
    by (simp add: prod_eq_iff)
  moreover from c rb_peek_spec [of 2 abcd] have "rb_peek abcd 2 = (Some 0, abcd)"
    by (simp add: prod_eq_iff d)
  moreover from c rb_peek_spec [of 3 abcd] have "rb_peek abcd 3 = (Some 1, abcd)"
    by (simp add: prod_eq_iff d)
  moreover have "data_buffer two_left ! 4 = 5" "data_buffer abcd ! 0 = 99" "data_buffer abcd ! 1 = 100"
    by (simp_all add: two_left_def abcd_def)
  ultimately show ?thesis using c by simp
qed

section \<open>\<^verbatim>\<open>push_front\<close>\<close>




section \<open>\<^verbatim>\<open>pop_string\<close>\<close>

lemma oldest_pop: "oldest (rb\<lparr>output_idx := output_idx rb + 1\<rparr>) k = oldest rb (Suc k)"
  by (simp add: oldest_def RINGBUF_CURR_o_def RINGBUF_CURR_o_index_def RINGBUF_WRAP_def add.assoc)

lemma oldest_0: "oldest rb 0 = RINGBUF_CURR_o rb 0"
  by (simp add: oldest_def)

lemma unat_rb_count_pop:
  "rb_count rb \<noteq> 0 \<Longrightarrow> unat (rb_count (rb\<lparr>output_idx := output_idx rb + 1\<rparr>)) = unat (rb_count rb) - 1"
  by (simp add: unat_rb_count rb_count_0_iff diff_diff_eq[symmetric] unat_minus_one)

lemma transferred_step:
  "transferred (rb\<lparr>output_idx := output_idx rb + 1\<rparr>) (dest(s := oldest rb 0)) (Suc s) m
   = transferred rb dest s (Suc m)"
proof (rule ext)
  fix k
  have "Suc s \<le> k \<Longrightarrow> Suc (k - Suc s) = k - s"
    by arith
  then show "transferred (rb\<lparr>output_idx := output_idx rb + 1\<rparr>) (dest(s := oldest rb 0)) (Suc s) m k
     = transferred rb dest s (Suc m) k"
    by (auto simp add: transferred_def oldest_pop)
qed

lemma transferred_0: "transferred rb dest s 0 = dest"
  by (rule ext) (auto simp add: transferred_def)

lemma unat_size_Suc: "unat (count :: size_t) + 1 < 2 ^ 64 \<Longrightarrow> unat (count + 1) = Suc (unat count)"
  by (simp add: unat_word_ariths)

lemma unat_rb_count_less: "unat (rb_count rb) < 2 ^ 32"
  using unsigned_less [of "input rb - output_idx rb", where 'a = nat] by (simp add: unat_rb_count)

lemma pop_string_loop_eq:
  "unat count + unat (rb_count rb) < 2 ^ 64 \<Longrightarrow>
   pop_string_loop rb dest limit count =
     (count + of_nat (min (unat limit) (unat (rb_count rb))),
      rb\<lparr>output_idx := output_idx rb + of_nat (min (unat limit) (unat (rb_count rb)))\<rparr>,
      transferred rb dest (unat count) (min (unat limit) (unat (rb_count rb))))"
proof (induction rb dest limit count rule: pop_string_loop.induct)
  case (1 rb dest limit count)
  show ?case
  proof (cases "limit \<noteq> 0 \<and> rb_count rb \<noteq> 0")
    case False
    then have "min (unat limit) (unat (rb_count rb)) = 0"
      by (auto simp add: unat_eq_0)
    with False show ?thesis
      by (subst pop_string_loop.simps) (auto simp add: transferred_0)
  next
    case True
    let ?rb = "rb\<lparr>output_idx := output_idx rb + 1\<rparr>"
    let ?dest = "dest(unat count := RINGBUF_CURR_o rb 0)"
    let ?m = "min (unat limit) (unat (rb_count rb))"
    let ?n = "min (unat (limit - 1)) (unat (rb_count ?rb))"
    from True have pos: "0 < unat limit" "0 < unat (rb_count rb)"
      by (simp_all add: unat_gt_0)
    have c: "unat (rb_count ?rb) = unat (rb_count rb) - 1"
      using True by (simp add: unat_rb_count_pop)
    have l: "unat (limit - 1) = unat limit - 1"
      using True by (simp add: unat_minus_one)
    have m: "?m = Suc ?n"
      using pos c l by simp
    have s: "unat (count + 1) = Suc (unat count)"
      using "1.prems" pos by (simp add: unat_size_Suc)
    have "unat (count + 1) + unat (rb_count ?rb) < 2 ^ 64"
      using "1.prems" pos c s by simp
    with True have IH: "pop_string_loop ?rb ?dest (limit - 1) (count + 1) =
      (count + 1 + of_nat ?n, ?rb\<lparr>output_idx := output_idx ?rb + of_nat ?n\<rparr>,
       transferred ?rb ?dest (unat (count + 1)) ?n)"
      by (rule "1.IH")
    have t: "transferred ?rb ?dest (unat (count + 1)) ?n = transferred rb dest (unat count) ?m"
      unfolding s m using transferred_step [of rb dest "unat count" ?n]
      by (simp only: oldest_0)
    have "pop_string_loop rb dest limit count = pop_string_loop ?rb ?dest (limit - 1) (count + 1)"
      using True by (subst pop_string_loop.simps) simp
    also note IH
    also note t
    finally show ?thesis
      by (simp add: m add.assoc)
  qed
qed

lemma rb_pop_string_eq:
  "rb_pop_string rb dest limit =
     (of_nat (min (unat limit) (unat (rb_count rb))),
      rb\<lparr>output_idx := output_idx rb + of_nat (min (unat limit) (unat (rb_count rb)))\<rparr>,
      transferred rb dest 0 (min (unat limit) (unat (rb_count rb))))"
proof (cases "rb_empty rb")
  case True
  then show ?thesis
    by (simp add: rb_pop_string_def rb_empty_def transferred_0)
next
  case False
  have "unat (0 :: size_t) + unat (rb_count rb) < 2 ^ 64"
    using unat_rb_count_less [of rb] by simp
  from pop_string_loop_eq [OF this] False show ?thesis
    by (simp add: rb_pop_string_def)
qed

text \<open>
  C7. \<^verbatim>\<open>pop_string\<close> copies exactly \<open>m = min(limit, count())\<close> elements: cell \<open>k\<close> of
  \<^verbatim>\<open>dest\<close>, for \<open>k < m\<close>, receives the element at logical position \<open>k\<close> (oldest first),
  that is the array cell \<^verbatim>\<open>(output + k) & (N - 1)\<close>, whatever its value. \<^verbatim>\<open>output\<close>
  advances by \<open>m\<close>, the function returns \<open>m\<close>, and every cell of \<^verbatim>\<open>dest\<close> from \<open>m\<close> on is
  left as it was: no terminator is written. Nothing else of the buffer changes. (\<open>m\<close> fits
  both integer types, so the two conversions are exact.)
\<close>

theorem rb_pop_string_spec:
  "(let m = min (unat limit) (unat (rb_count rb)) in
     rb_pop_string rb dest limit =
       (of_nat m,
        rb\<lparr>output_idx := output_idx rb + of_nat m\<rparr>,
        (\<lambda>k. if k < m
              then data_buffer rb !
                     unat ((ucast (output_idx rb + of_nat k) :: size_t) AND
                           (of_nat (length (data_buffer rb)) - 1))
              else dest k)) \<and>
     unat (of_nat m :: size_t) = m \<and> unat (of_nat m :: index_t) = m)"
proof -
  let ?m = "min (unat limit) (unat (rb_count rb))"
  have "?m < 2 ^ 32"
    using unat_rb_count_less [of rb] by simp
  then have "unat (of_nat ?m :: size_t) = ?m" "unat (of_nat ?m :: index_t) = ?m"
    by (simp_all add: unat_of_nat)
  moreover have "transferred rb dest 0 ?m =
    (\<lambda>k. if k < ?m
          then data_buffer rb !
                 unat ((ucast (output_idx rb + of_nat k) :: size_t) AND
                       (of_nat (length (data_buffer rb)) - 1))
          else dest k)"
    by (rule ext)
       (simp add: transferred_def oldest_def RINGBUF_CURR_o_def RINGBUF_CURR_o_index_def
          RINGBUF_WRAP_def ARRAY_COUNT_def)
  ultimately show ?thesis
    by (simp add: rb_pop_string_eq Let_def)
qed

text \<open>
  Three runs: the four bytes \<open>a b c d\<close> stored across the end of the array come out in the
  order they went in; on the buffer holding 1, 0, 2 the limit 2 stops after 1, 0 and the
  limit 10 gives 1, 0, 2, the zero copied like any other value. The cells of \<^verbatim>\<open>dest\<close>
  after the copied ones keep the value 255.
\<close>

theorem rb_pop_string_spec_witness:
  "rb_pop_string abcd junk 10 =
     (4, abcd\<lparr>output_idx := 10\<rparr>, junk(0 := 97, 1 := 98, 2 := 99, 3 := 100)) \<and>
   rb_pop_string one_zero_two junk 2 =
     (2, one_zero_two\<lparr>output_idx := 5\<rparr>, junk(0 := 1, 1 := 0)) \<and>
   rb_pop_string one_zero_two junk 10 =
     (3, one_zero_two\<lparr>output_idx := 6\<rparr>, junk(0 := 1, 1 := 0, 2 := 2)) \<and>
   junk 2 = 255 \<and> junk 3 = 255 \<and> junk 4 = 255"
proof -
  have a: "min (unat (10 :: size_t)) (unat (rb_count abcd)) = 4"
    "output_idx abcd = 6" "length (data_buffer abcd) = 8"
    by (simp_all add: abcd_def rb_count_def)
  have b: "min (unat (2 :: size_t)) (unat (rb_count one_zero_two)) = 2"
    "output_idx one_zero_two = 3" "length (data_buffer one_zero_two) = 4"
    by (simp_all add: one_zero_two_def rb_count_def)
  have ma: "(\<lambda>k. if k < 4
              then data_buffer abcd ! unat ((ucast (6 + of_nat k :: index_t) :: size_t) AND (of_nat 8 - 1))
              else junk k) = junk(0 := 97, 1 := 98, 2 := 99, 3 := 100)"
  proof (rule ext)
    fix k :: nat
    have "k < 4 \<Longrightarrow> k = 0 \<or> k = 1 \<or> k = 2 \<or> k = 3" by arith
    then show "(if k < 4
              then data_buffer abcd ! unat ((ucast (6 + of_nat k :: index_t) :: size_t) AND (of_nat 8 - 1))
              else junk k) = (junk(0 := 97, 1 := 98, 2 := 99, 3 := 100)) k"
      by (auto simp add: abcd_def)
  qed
  have mb: "(\<lambda>k. if k < 2
              then data_buffer one_zero_two ! unat ((ucast (3 + of_nat k :: index_t) :: size_t) AND (of_nat 4 - 1))
              else junk k) = junk(0 := 1, 1 := 0)"
  proof (rule ext)
    fix k :: nat
    have "k < 2 \<Longrightarrow> k = 0 \<or> k = 1" by arith
    then show "(if k < 2
              then data_buffer one_zero_two ! unat ((ucast (3 + of_nat k :: index_t) :: size_t) AND (of_nat 4 - 1))
              else junk k) = (junk(0 := 1, 1 := 0)) k"
      by (auto simp add: one_zero_two_def)
  qed
  have b': "min (unat (10 :: size_t)) (unat (rb_count one_zero_two)) = 3"
    by (simp add: one_zero_two_def rb_count_def)
  have mb': "(\<lambda>k. if k < 3
              then data_buffer one_zero_two ! unat ((ucast (3 + of_nat k :: index_t) :: size_t) AND (of_nat 4 - 1))
              else junk k) = junk(0 := 1, 1 := 0, 2 := 2)"
  proof (rule ext)
    fix k :: nat
    have "k < 3 \<Longrightarrow> k = 0 \<or> k = 1 \<or> k = 2" by arith
    then show "(if k < 3
              then data_buffer one_zero_two ! unat ((ucast (3 + of_nat k :: index_t) :: size_t) AND (of_nat 4 - 1))
              else junk k) = (junk(0 := 1, 1 := 0, 2 := 2)) k"
      by (auto simp add: one_zero_two_def)
  qed
  from rb_pop_string_spec [of 10 one_zero_two junk]
  have "rb_pop_string one_zero_two junk 10 =
     (3, one_zero_two\<lparr>output_idx := 6\<rparr>, junk(0 := 1, 1 := 0, 2 := 2))"
    unfolding Let_def b' b(2,3) mb' by simp
  moreover from rb_pop_string_spec [of 10 abcd junk]
  have "rb_pop_string abcd junk 10 =
     (4, abcd\<lparr>output_idx := 10\<rparr>, junk(0 := 97, 1 := 98, 2 := 99, 3 := 100))"
    unfolding Let_def a ma by simp
  moreover from rb_pop_string_spec [of 2 one_zero_two junk]
  have "rb_pop_string one_zero_two junk 2 =
     (2, one_zero_two\<lparr>output_idx := 5\<rparr>, junk(0 := 1, 1 := 0))"
    unfolding Let_def b mb by simp
  ultimately show ?thesis by (simp add: junk_def)
qed

section \<open>The loops of \<^verbatim>\<open>pop_cstring\<close> and of the conditional pop\<close>

text \<open>The loop of \<^verbatim>\<open>pop_cstring\<close> is the loop of \<^verbatim>\<open>pop_string\<close> run with \<^verbatim>\<open>limit - 1\<close>.\<close>

lemma pop_cstring_loop_eq:
  "pop_cstring_loop rb dest limit count = pop_string_loop rb dest (limit - 1) count"
proof (induction rb dest limit count rule: pop_cstring_loop.induct)
  case (1 rb dest limit count)
  show ?case
  proof (cases "limit - 1 \<noteq> 0 \<and> rb_count rb \<noteq> 0")
    case True
    let ?rb = "rb\<lparr>output_idx := output_idx rb + 1\<rparr>"
    let ?dest = "dest(unat count := RINGBUF_CURR_o rb 0)"
    have "pop_cstring_loop rb dest limit count = pop_cstring_loop ?rb ?dest (limit - 1) (count + 1)"
      by (subst pop_cstring_loop.simps) (use True in simp)
    also from True have "\<dots> = pop_string_loop ?rb ?dest (limit - 1 - 1) (count + 1)"
      by (rule "1.IH")
    also have "\<dots> = pop_string_loop rb dest (limit - 1) count"
      by (subst pop_string_loop.simps [of rb dest "limit - 1" count]) (use True in simp)
    finally show ?thesis .
  next
    case False
    have "pop_cstring_loop rb dest limit count = (count, rb, dest)"
      by (subst pop_cstring_loop.simps) (use False in auto)
    also have "\<dots> = pop_string_loop rb dest (limit - 1) count"
      by (subst pop_string_loop.simps) (use False in auto)
    finally show ?thesis .
  qed
qed

lemma rb_pop_cstring_nonempty:
  assumes "\<not> rb_empty rb"
  shows "rb_pop_cstring rb dest limit =
     (of_nat (min (unat (limit - 1)) (unat (rb_count rb))),
      rb\<lparr>output_idx := output_idx rb + of_nat (min (unat (limit - 1)) (unat (rb_count rb)))\<rparr>,
      (transferred rb dest 0 (min (unat (limit - 1)) (unat (rb_count rb))))
        (min (unat (limit - 1)) (unat (rb_count rb)) := 0))"
proof -
  let ?m = "min (unat (limit - 1)) (unat (rb_count rb))"
  have "unat (0 :: size_t) + unat (rb_count rb) < 2 ^ 64"
    using unat_rb_count_less [of rb] by simp
  from pop_string_loop_eq [OF this, of dest "limit - 1"]
  have "pop_cstring_loop rb dest limit 0 =
     (of_nat ?m, rb\<lparr>output_idx := output_idx rb + of_nat ?m\<rparr>, transferred rb dest 0 ?m)"
    by (simp add: pop_cstring_loop_eq)
  moreover have "?m < 2 ^ 32"
    using unat_rb_count_less [of rb] by simp
  then have "unat (of_nat ?m :: size_t) = ?m"
    by (simp add: unat_of_nat)
  ultimately show ?thesis
    using assms by (simp add: rb_pop_cstring_def)
qed

lemma rb_pop_cstring_empty: "rb_empty rb \<Longrightarrow> rb_pop_cstring rb dest limit = (0, rb, dest)"
  by (simp add: rb_pop_cstring_def)

lemma rb_pop_string_cond_empty:
  "rb_empty rb \<Longrightarrow> rb_pop_string_cond COND BEHAV rb dest limit = (0, rb, dest)"
  by (simp add: rb_pop_string_cond_def)

text \<open>
  While the condition holds at none of the buffered positions, the conditional loop is the
  loop of \<^verbatim>\<open>pop_cstring\<close>.
\<close>

lemma pop_string_cond_loop_no_match:
  "(\<forall>k < unat (rb_count rb). \<not> COND (rb\<lparr>output_idx := output_idx rb + of_nat k\<rparr>)) \<Longrightarrow>
   pop_string_cond_loop COND BEHAV rb dest limit count = pop_cstring_loop rb dest limit count"
proof (induction rb dest limit count rule: pop_cstring_loop.induct)
  case (1 rb dest limit count)
  show ?case
  proof (cases "limit - 1 \<noteq> 0 \<and> rb_count rb \<noteq> 0")
    case False
    then show ?thesis
      by (subst pop_cstring_loop.simps, subst pop_string_cond_loop.simps) auto
  next
    case True
    let ?rb = "rb\<lparr>output_idx := output_idx rb + 1\<rparr>"
    from True have pos: "0 < unat (rb_count rb)"
      by (simp add: unat_gt_0)
    with "1.prems" have "\<not> COND (rb\<lparr>output_idx := output_idx rb + of_nat 0\<rparr>)"
      by blast
    then have now: "\<not> COND rb"
      by simp
    have "\<forall>k < unat (rb_count ?rb). \<not> COND (?rb\<lparr>output_idx := output_idx ?rb + of_nat k\<rparr>)"
    proof (intro allI impI)
      fix k assume "k < unat (rb_count ?rb)"
      with True have "Suc k < unat (rb_count rb)"
        by (simp add: unat_rb_count_pop)
      with "1.prems" have "\<not> COND (rb\<lparr>output_idx := output_idx rb + of_nat (Suc k)\<rparr>)"
        by blast
      then show "\<not> COND (?rb\<lparr>output_idx := output_idx ?rb + of_nat k\<rparr>)"
        by (simp add: add.assoc)
    qed
    with True have IH: "pop_string_cond_loop COND BEHAV ?rb (dest(unat count := RINGBUF_CURR_o rb 0))
        (limit - 1) (count + 1) =
      pop_cstring_loop ?rb (dest(unat count := RINGBUF_CURR_o rb 0)) (limit - 1) (count + 1)"
      by (rule "1.IH")
    have "pop_string_cond_loop COND BEHAV rb dest limit count =
      pop_string_cond_loop COND BEHAV ?rb (dest(unat count := RINGBUF_CURR_o rb 0)) (limit - 1) (count + 1)"
      by (subst pop_string_cond_loop.simps) (use True now in simp)
    also note IH
    also have "pop_cstring_loop ?rb (dest(unat count := RINGBUF_CURR_o rb 0)) (limit - 1) (count + 1)
      = pop_cstring_loop rb dest limit count"
      by (subst pop_cstring_loop.simps [of rb dest limit count]) (use True in simp)
    finally show ?thesis .
  qed
qed

text \<open>The conditional loop only moves \<^verbatim>\<open>output\<close>, and never past \<^verbatim>\<open>input\<close>.\<close>

lemma pop_string_cond_loop_frame:
  "pop_string_cond_loop COND BEHAV rb dest limit count = (n, rb', dest') \<Longrightarrow>
   input rb' = input rb \<and> data_buffer rb' = data_buffer rb \<and> push_callback rb' = push_callback rb \<and>
   unat (rb_count rb') \<le> unat (rb_count rb)"
proof (induction COND BEHAV rb dest limit count rule: pop_string_cond_loop.induct)
  case (1 COND BEHAV rb dest limit count)
  let ?rb = "rb\<lparr>output_idx := output_idx rb + 1\<rparr>"
  show ?case
  proof (cases "limit - 1 \<noteq> 0 \<and> rb_count rb \<noteq> 0")
    case False
    with "1.prems" show ?thesis
      by (subst (asm) pop_string_cond_loop.simps) auto
  next
    case True
    then have dec: "unat (rb_count ?rb) \<le> unat (rb_count rb)"
      by (simp add: unat_rb_count_pop)
    show ?thesis
    proof (cases "COND rb")
      case False
      with True "1.prems"
      have "pop_string_cond_loop COND BEHAV ?rb (dest(unat count := RINGBUF_CURR_o rb 0))
              (limit - 1) (count + 1) = (n, rb', dest')"
        by (subst (asm) pop_string_cond_loop.simps) simp
      from "1.IH"(2) [OF True False this] dec show ?thesis
        by simp
    next
      case c: True
      show ?thesis
      proof (cases BEHAV)
        case Break
        with True c "1.prems" show ?thesis
          by (subst (asm) pop_string_cond_loop.simps) auto
      next
        case Continue
        with True c "1.prems"
        have "pop_string_cond_loop COND BEHAV ?rb dest (limit - 1) count = (n, rb', dest')"
          by (subst (asm) pop_string_cond_loop.simps) simp
        from "1.IH"(1) [OF True c Continue this] dec show ?thesis
          by simp
      qed
    qed
  qed
qed

section \<open>Evaluation on concrete buffers\<close>

lemmas buffer_eval = rb_empty_def rb_count_def rb_full_def BUFFER_LEN_def ARRAY_COUNT_def
  RINGBUF_WRAP_def RINGBUF_CURR_o_def RINGBUF_CURR_o_index_def RINGBUF_CURR_i_set_def

section \<open>\<^verbatim>\<open>pop_cstring\<close>\<close>

text \<open>
  On the buffer holding \<open>a b c d\<close>, \<^verbatim>\<open>pop_cstring( dest, 3 )\<close> transfers \<open>a\<close> and \<open>b\<close> and
  writes the terminator at \<^verbatim>\<open>dest[ 2 ]\<close>.
\<close>

lemma rb_pop_cstring_abcd:
  "rb_pop_cstring abcd dest 3 = (2, abcd\<lparr>output_idx := 8\<rparr>, dest(0 := 97, 1 := 98, 2 := 0))"
  by (simp add: rb_pop_cstring_def abcd_def buffer_eval pop_cstring_loop.simps)

text \<open>
  C8. The header says of \<^verbatim>\<open>pop_cstring\<close>: "Pop all strings up to @len items and
  null-terminate the output." On a buffer that is empty on entry the function returns
  through \<^verbatim>\<open>if ( NAME_empty( rb ) ) return 0;\<close> before the terminator is written:
  \<^verbatim>\<open>dest[ 0 ]\<close> keeps its old value 255. (On a buffer that is not empty the claim holds,
  see \<open>rb_pop_cstring_nonempty\<close>.)
\<close>

theorem rb_pop_cstring_empty_no_terminator:
  "rb_empty fresh4 \<and> rb_pop_cstring fresh4 junk 3 = (0, fresh4, junk) \<and> junk 0 = 255"
  by (simp add: rb_pop_cstring_def fresh4_def rb_init_def junk_def buffer_eval)

section \<open>The conditional pop\<close>

text \<open>On a buffer that is not empty on entry the terminator is written, however the loop ends.\<close>

lemma rb_pop_string_cond_terminated:
  "\<not> rb_empty rb \<Longrightarrow> rb_pop_string_cond COND BEHAV rb dest limit = (n, rb', dest') \<Longrightarrow>
   dest' (unat n) = 0"
  by (auto simp add: rb_pop_string_cond_def split: prod.splits)

text \<open>
  C3. The header says of the conditional pop: "Output wll be null-terminated." On a
  buffer that is empty on entry the function returns through the same early
  \<^verbatim>\<open>return 0;\<close> as \<^verbatim>\<open>pop_cstring\<close>, before the terminator is written: \<^verbatim>\<open>dest[ 0 ]\<close> keeps
  its old value 255, for the skipping and for the halting variant.
\<close>

theorem rb_pop_string_cond_empty_no_terminator:
  "rb_empty fresh4 \<and>
   rb_pop_string_cond is_zero Continue fresh4 junk 4 = (0, fresh4, junk) \<and>
   rb_pop_string_cond is_star Break fresh4 junk 4 = (0, fresh4, junk) \<and> junk 0 = 255"
  by (simp add: rb_pop_string_cond_def fresh4_def rb_init_def junk_def buffer_eval)




text \<open>
  A skipped element uses up one unit of the limit although nothing is written for it: with
  limit 3 the same call transfers only the 1 and leaves the 2 in the buffer.
\<close>

lemma rb_pop_string_cond_skip_uses_limit:
  "rb_pop_string_cond is_zero Continue one_zero_two dest 3 =
     (1, one_zero_two\<lparr>output_idx := 5\<rparr>, dest(0 := 1, 1 := 0))"
  by (simp add: rb_pop_string_cond_def one_zero_two_def is_zero_def buffer_eval
      pop_string_cond_loop.simps)

section \<open>The limit 0\<close>

lemma transferred_all:
  "(transferred rb dest 0 m)(m := z) =
     (\<lambda>k. if k < m
          then data_buffer rb !
                 unat ((ucast (output_idx rb + of_nat k) :: size_t) AND
                       (of_nat (length (data_buffer rb)) - 1))
          else if k = m then z else dest k)"
  by (rule ext)
     (simp add: transferred_def oldest_def RINGBUF_CURR_o_def RINGBUF_CURR_o_index_def
        RINGBUF_WRAP_def ARRAY_COUNT_def)

lemma min_limit_0: "min (unat ((0 :: size_t) - 1)) (unat (rb_count rb)) = unat (rb_count rb)"
proof -
  have "unat (- 1 :: size_t) = 2 ^ 64 - 1"
    by (simp add: unsigned_minus_1_eq_mask mask_eq_exp_minus_1)
  with unat_rb_count_less [of rb] show ?thesis by simp
qed

lemma of_nat_unat_rb_count:
  "(of_nat (unat (rb_count rb)) :: size_t) = rb_count rb"
  "output_idx rb + of_nat (unat (rb_count rb)) = input rb"
  by (simp, simp add: unat_rb_count)

text \<open>
  With a limit that is large enough, the limit never ends the conditional loop: every such
  limit gives the same result.
\<close>

lemma pop_string_cond_loop_any_limit:
  "unat (rb_count rb) \<le> unat (limit - 1) \<Longrightarrow> unat (rb_count rb) \<le> unat (limit' - 1) \<Longrightarrow>
   pop_string_cond_loop COND BEHAV rb dest limit count =
   pop_string_cond_loop COND BEHAV rb dest limit' count"
proof (induction COND BEHAV rb dest limit count arbitrary: limit' rule: pop_string_cond_loop.induct)
  case (1 COND BEHAV rb dest limit count)
  let ?rb = "rb\<lparr>output_idx := output_idx rb + 1\<rparr>"
  show ?case
  proof (cases "rb_count rb = 0")
    case True
    then show ?thesis
      by (subst pop_string_cond_loop.simps, subst (2) pop_string_cond_loop.simps) simp
  next
    case False
    then have pos: "0 < unat (rb_count rb)"
      by (simp add: unat_gt_0)
    with "1.prems" have l: "limit - 1 \<noteq> 0" "limit' - 1 \<noteq> 0"
      by (auto simp add: unat_eq_0 [symmetric] simp del: unat_eq_0)
    have c: "unat (rb_count ?rb) = unat (rb_count rb) - 1"
      using False by (rule unat_rb_count_pop)
    from l(1) have u: "unat (limit - 1 - 1) = unat (limit - 1) - 1"
      by (rule unat_minus_one)
    from l(2) have u': "unat (limit' - 1 - 1) = unat (limit' - 1) - 1"
      by (rule unat_minus_one)
    have p: "unat (rb_count ?rb) \<le> unat (limit - 1 - 1)"
      "unat (rb_count ?rb) \<le> unat (limit' - 1 - 1)"
      unfolding c u u' using "1.prems" by linarith+
    from l False have g: "limit - 1 \<noteq> 0 \<and> rb_count rb \<noteq> 0"
      by simp
    show ?thesis
    proof (cases "COND rb")
      case False
      from g False p have "pop_string_cond_loop COND BEHAV ?rb (dest(unat count := RINGBUF_CURR_o rb 0))
          (limit - 1) (count + 1) =
        pop_string_cond_loop COND BEHAV ?rb (dest(unat count := RINGBUF_CURR_o rb 0))
          (limit' - 1) (count + 1)"
        by (rule "1.IH"(2))
      with l \<open>rb_count rb \<noteq> 0\<close> False show ?thesis
        by (subst pop_string_cond_loop.simps, subst (2) pop_string_cond_loop.simps) simp
    next
      case True
      show ?thesis
      proof (cases BEHAV)
        case Break
        with l \<open>rb_count rb \<noteq> 0\<close> True show ?thesis
          by (subst pop_string_cond_loop.simps, subst (2) pop_string_cond_loop.simps) simp
      next
        case Continue
        from g True Continue p have "pop_string_cond_loop COND BEHAV ?rb dest (limit - 1) count =
          pop_string_cond_loop COND BEHAV ?rb dest (limit' - 1) count"
          by (rule "1.IH"(1))
        with l \<open>rb_count rb \<noteq> 0\<close> True Continue show ?thesis
          by (subst pop_string_cond_loop.simps, subst (2) pop_string_cond_loop.simps) simp
      qed
    qed
  qed
qed


text \<open>
  The conditional loop transfers at most the buffered elements, and fewer than these as
  soon as the condition holds at one of the buffered positions.
\<close>

lemma match_shift:
  assumes "\<exists>k < unat (rb_count rb). COND (rb\<lparr>output_idx := output_idx rb + of_nat k\<rparr>)"
    and "\<not> COND rb" and "rb_count rb \<noteq> 0"
  shows "\<exists>k < unat (rb_count (rb\<lparr>output_idx := output_idx rb + 1\<rparr>)).
           COND (rb\<lparr>output_idx := output_idx rb + 1,
                     output_idx := output_idx (rb\<lparr>output_idx := output_idx rb + 1\<rparr>) + of_nat k\<rparr>)"
proof -
  from assms(1) obtain k where k: "k < unat (rb_count rb)"
    "COND (rb\<lparr>output_idx := output_idx rb + of_nat k\<rparr>)"
    by blast
  from k(2) assms(2) have "k \<noteq> 0"
    by (cases "k = 0") auto
  then obtain j where j: "k = Suc j"
    by (cases k) auto
  with k(1) assms(3) have "j < unat (rb_count (rb\<lparr>output_idx := output_idx rb + 1\<rparr>))"
    by (simp add: unat_rb_count_pop)
  moreover from k(2) j have "COND (rb\<lparr>output_idx := output_idx rb + 1,
      output_idx := output_idx (rb\<lparr>output_idx := output_idx rb + 1\<rparr>) + of_nat j\<rparr>)"
    by (simp add: add.assoc)
  ultimately show ?thesis by blast
qed

lemma pop_string_cond_loop_fewer:
  "pop_string_cond_loop COND BEHAV rb dest limit count = (n, rb', dest') \<Longrightarrow>
   unat count + unat (rb_count rb) < 2 ^ 64 \<Longrightarrow>
   unat n \<le> unat count + unat (rb_count rb) \<and>
   ((\<exists>k < unat (rb_count rb). COND (rb\<lparr>output_idx := output_idx rb + of_nat k\<rparr>)) \<longrightarrow>
      unat n < unat count + unat (rb_count rb))"
proof (induction COND BEHAV rb dest limit count rule: pop_string_cond_loop.induct)
  case (1 COND BEHAV rb dest limit count)
  let ?rb = "rb\<lparr>output_idx := output_idx rb + 1\<rparr>"
  show ?case
  proof (cases "limit - 1 \<noteq> 0 \<and> rb_count rb \<noteq> 0")
    case False
    with "1.prems"(1) have "n = count"
      by (subst (asm) pop_string_cond_loop.simps) auto
    then show ?thesis by auto
  next
    case True
    then have pos: "0 < unat (rb_count rb)"
      by (simp add: unat_gt_0)
    have c: "unat (rb_count ?rb) = unat (rb_count rb) - 1"
      using True by (simp add: unat_rb_count_pop)
    show ?thesis
    proof (cases "COND rb")
      case False
      with True "1.prems"(1)
      have l: "pop_string_cond_loop COND BEHAV ?rb (dest(unat count := RINGBUF_CURR_o rb 0))
              (limit - 1) (count + 1) = (n, rb', dest')"
        by (subst (asm) pop_string_cond_loop.simps) simp
      have s: "unat (count + 1) = Suc (unat count)"
        using "1.prems"(2) pos by (simp add: unat_size_Suc)
      with "1.prems"(2) pos c have b: "unat (count + 1) + unat (rb_count ?rb) < 2 ^ 64"
        by simp
      note IH = "1.IH"(2) [OF True False l b]
      have "unat n \<le> unat count + unat (rb_count rb)"
        using IH pos c s by simp
      moreover have "unat n < unat count + unat (rb_count rb)"
        if "\<exists>k < unat (rb_count rb). COND (rb\<lparr>output_idx := output_idx rb + of_nat k\<rparr>)"
      proof -
        from that False True
        have "\<exists>k < unat (rb_count ?rb).
           COND (rb\<lparr>output_idx := output_idx rb + 1, output_idx := output_idx ?rb + of_nat k\<rparr>)"
          by (intro match_shift) simp_all
        with IH have "unat n < unat (count + 1) + unat (rb_count ?rb)"
          by blast
        with pos c s show ?thesis by simp
      qed
      ultimately show ?thesis by blast
    next
      case m: True
      show ?thesis
      proof (cases BEHAV)
        case Break
        with True m "1.prems"(1) have "n = count"
          by (subst (asm) pop_string_cond_loop.simps) auto
        with pos show ?thesis by auto
      next
        case Continue
        with True m "1.prems"(1)
        have l: "pop_string_cond_loop COND BEHAV ?rb dest (limit - 1) count = (n, rb', dest')"
          by (subst (asm) pop_string_cond_loop.simps) simp
        from "1.prems"(2) c have b: "unat count + unat (rb_count ?rb) < 2 ^ 64"
          by simp
        from "1.IH"(1) [OF True m Continue l b] have "unat n \<le> unat count + unat (rb_count ?rb)"
          by blast
        with pos c show ?thesis by auto
      qed
    qed
  qed
qed


lemma limit_0_covers: "unat (rb_count rb) \<le> unat ((0 :: size_t) - 1)"
  using min_limit_0 [of rb] by (simp only: min_def split: if_splits)

text \<open>
  C10, as amended. On a buffer that is not empty, \<^verbatim>\<open>pop_cstring\<close> with limit 0 does not
  stop at once: \<^verbatim>\<open>--limit\<close> wraps around to the largest \<^verbatim>\<open>size_t\<close>. The call transfers
  all \<^verbatim>\<open>count()\<close> elements, oldest first, writes the terminator at \<^verbatim>\<open>dest[ count() ]\<close>,
  returns \<^verbatim>\<open>count()\<close> and leaves the buffer empty; the other cells of \<^verbatim>\<open>dest\<close> are as
  before. In the conditional pop the limit 0 wraps in the same way and never ends the loop:
  the call gives the same result as with any limit \<open>L\<close> for which \<open>L - 1\<close>, taken in
  \<^verbatim>\<open>size_t\<close>, is at least \<^verbatim>\<open>count()\<close>. It does what \<^verbatim>\<open>pop_cstring\<close> does if its condition
  holds at none of the buffered positions. If the condition holds at one of them, the call
  returns fewer than \<^verbatim>\<open>count()\<close> and writes the terminator at the cell of \<^verbatim>\<open>dest\<close> with
  the returned number.
\<close>

theorem rb_pop_cstring_limit_0:
  "\<not> rb_empty rb \<longrightarrow>
     rb_pop_cstring rb dest 0 =
       (rb_count rb, rb\<lparr>output_idx := input rb\<rparr>,
        (\<lambda>k. if k < unat (rb_count rb)
              then data_buffer rb !
                     unat ((ucast (output_idx rb + of_nat k) :: size_t) AND
                           (of_nat (length (data_buffer rb)) - 1))
              else if k = unat (rb_count rb) then 0 else dest k)) \<and>
     (\<forall>limit. unat (rb_count rb) \<le> unat (limit - 1) \<longrightarrow>
        rb_pop_string_cond COND BEHAV rb dest 0 = rb_pop_string_cond COND BEHAV rb dest limit) \<and>
     ((\<forall>k < unat (rb_count rb). \<not> COND (rb\<lparr>output_idx := output_idx rb + of_nat k\<rparr>)) \<longrightarrow>
        rb_pop_string_cond COND BEHAV rb dest 0 = rb_pop_cstring rb dest 0) \<and>
     ((\<exists>k < unat (rb_count rb). COND (rb\<lparr>output_idx := output_idx rb + of_nat k\<rparr>)) \<longrightarrow>
        unat (fst (rb_pop_string_cond COND BEHAV rb dest 0)) < unat (rb_count rb) \<and>
        snd (snd (rb_pop_string_cond COND BEHAV rb dest 0))
          (unat (fst (rb_pop_string_cond COND BEHAV rb dest 0))) = 0)"
proof (intro impI conjI allI)
  assume ne: "\<not> rb_empty rb"
  from rb_pop_cstring_nonempty [OF ne, of dest 0]
  show "rb_pop_cstring rb dest 0 =
       (rb_count rb, rb\<lparr>output_idx := input rb\<rparr>,
        (\<lambda>k. if k < unat (rb_count rb)
              then data_buffer rb !
                     unat ((ucast (output_idx rb + of_nat k) :: size_t) AND
                           (of_nat (length (data_buffer rb)) - 1))
              else if k = unat (rb_count rb) then 0 else dest k))"
    by (simp only: min_limit_0 of_nat_unat_rb_count transferred_all)
next
  fix limit :: size_t
  assume "unat (rb_count rb) \<le> unat (limit - 1)"
  with limit_0_covers [of rb]
  have "pop_string_cond_loop COND BEHAV rb dest 0 0 = pop_string_cond_loop COND BEHAV rb dest limit 0"
    by (rule pop_string_cond_loop_any_limit)
  then show "rb_pop_string_cond COND BEHAV rb dest 0 = rb_pop_string_cond COND BEHAV rb dest limit"
    by (simp add: rb_pop_string_cond_def)
next
  assume "\<forall>k < unat (rb_count rb). \<not> COND (rb\<lparr>output_idx := output_idx rb + of_nat k\<rparr>)"
  then have "pop_string_cond_loop COND BEHAV rb dest 0 0 = pop_cstring_loop rb dest 0 0"
    by (rule pop_string_cond_loop_no_match)
  then show "rb_pop_string_cond COND BEHAV rb dest 0 = rb_pop_cstring rb dest 0"
    by (simp add: rb_pop_string_cond_def rb_pop_cstring_def)
next
  assume ne: "\<not> rb_empty rb"
    and m: "\<exists>k < unat (rb_count rb). COND (rb\<lparr>output_idx := output_idx rb + of_nat k\<rparr>)"
  obtain n rb' dest' where l: "pop_string_cond_loop COND BEHAV rb dest 0 0 = (n, rb', dest')"
    by (cases "pop_string_cond_loop COND BEHAV rb dest 0 0") auto
  have "unat (0 :: size_t) + unat (rb_count rb) < 2 ^ 64"
    using unat_rb_count_less [of rb] by simp
  from pop_string_cond_loop_fewer [OF l this] m have "unat n < unat (rb_count rb)"
    by simp
  with ne l show "unat (fst (rb_pop_string_cond COND BEHAV rb dest 0)) < unat (rb_count rb)"
    by (simp add: rb_pop_string_cond_def)
next
  assume ne: "\<not> rb_empty rb"
  obtain n rb' dest' where l: "pop_string_cond_loop COND BEHAV rb dest 0 0 = (n, rb', dest')"
    by (cases "pop_string_cond_loop COND BEHAV rb dest 0 0") auto
  with ne show "snd (snd (rb_pop_string_cond COND BEHAV rb dest 0))
          (unat (fst (rb_pop_string_cond COND BEHAV rb dest 0))) = 0"
    by (simp add: rb_pop_string_cond_def)
qed

text \<open>
  For the conditional pop the claim as it stands fails when the condition holds somewhere:
  on the buffer holding 1, 0, 2 with limit 0, skipping zeros transfers 2 elements and
  writes 3 cells, and halting at zero transfers 1 element; \<^verbatim>\<open>dest[ 3 ]\<close> is not written.
\<close>

theorem rb_pop_string_cond_limit_0_counterexample:
  "\<not> rb_empty one_zero_two \<and> rb_count one_zero_two = 3 \<and>
   rb_pop_string_cond is_zero Continue one_zero_two junk 0 =
     (2, one_zero_two\<lparr>output_idx := 6\<rparr>, junk(0 := 1, 1 := 2, 2 := 0)) \<and>
   rb_pop_string_cond is_zero Break one_zero_two junk 0 =
     (1, one_zero_two\<lparr>output_idx := 4\<rparr>, junk(0 := 1, 1 := 0)) \<and>
   junk 3 = 255"
  by (simp add: rb_pop_string_cond_def one_zero_two_def is_zero_def junk_def buffer_eval
        pop_string_cond_loop.simps)

theorem rb_pop_cstring_limit_0_witness:
  "\<not> rb_empty abcd \<and> unat (rb_count abcd) = 4 \<and>
   \<not> is_zero (abcd\<lparr>output_idx := 6\<rparr>) \<and> \<not> is_zero (abcd\<lparr>output_idx := 7\<rparr>) \<and>
   \<not> is_zero (abcd\<lparr>output_idx := 8\<rparr>) \<and> \<not> is_zero (abcd\<lparr>output_idx := 9\<rparr>) \<and>
   rb_pop_cstring abcd junk 0 =
     (4, abcd\<lparr>output_idx := 10\<rparr>, junk(0 := 97, 1 := 98, 2 := 99, 3 := 100, 4 := 0)) \<and>
   rb_pop_string_cond is_zero Continue abcd junk 0 =
     (4, abcd\<lparr>output_idx := 10\<rparr>, junk(0 := 97, 1 := 98, 2 := 99, 3 := 100, 4 := 0)) \<and>
   unat (rb_count abcd) \<le> unat ((5 :: size_t) - 1) \<and>
   rb_pop_string_cond is_zero Continue abcd junk 0 = rb_pop_string_cond is_zero Continue abcd junk 5 \<and>
   \<not> rb_empty one_zero_two \<and> unat (rb_count one_zero_two) = 3 \<and>
   is_zero (one_zero_two\<lparr>output_idx := 4\<rparr>) \<and>
   unat (fst (rb_pop_string_cond is_zero Continue one_zero_two junk 0)) < 3 \<and>
   snd (snd (rb_pop_string_cond is_zero Continue one_zero_two junk 0))
     (unat (fst (rb_pop_string_cond is_zero Continue one_zero_two junk 0))) = 0"
proof -
  have ne: "\<not> rb_empty abcd" and c: "rb_count abcd = 4" "unat (rb_count abcd) = 4"
    and i: "input abcd = 10" "output_idx abcd = 6" "length (data_buffer abcd) = 8"
    by (simp_all add: abcd_def buffer_eval)
  have u: "unat (4 :: size_t) = 4"
    by simp
  have nz: "\<forall>k < 4. \<not> is_zero (abcd\<lparr>output_idx := 6 + of_nat k\<rparr>)"
  proof (intro allI impI)
    fix k :: nat assume "k < 4"
    then have "k = 0 \<or> k = 1 \<or> k = 2 \<or> k = 3" by arith
    then show "\<not> is_zero (abcd\<lparr>output_idx := 6 + of_nat k\<rparr>)"
      by (auto simp add: is_zero_def abcd_def buffer_eval)
  qed
  have m: "(\<lambda>k. if k < 4
              then data_buffer abcd ! unat ((ucast (6 + of_nat k :: index_t) :: size_t) AND (of_nat 8 - 1))
              else if k = 4 then 0 else junk k) = junk(0 := 97, 1 := 98, 2 := 99, 3 := 100, 4 := 0)"
  proof (rule ext)
    fix k :: nat
    have "k < 4 \<Longrightarrow> k = 0 \<or> k = 1 \<or> k = 2 \<or> k = 3" by arith
    then show "(if k < 4
              then data_buffer abcd ! unat ((ucast (6 + of_nat k :: index_t) :: size_t) AND (of_nat 8 - 1))
              else if k = 4 then 0 else junk k) = (junk(0 := 97, 1 := 98, 2 := 99, 3 := 100, 4 := 0)) k"
      by (auto simp add: abcd_def)
  qed
  have l5: "unat (rb_count abcd) \<le> unat ((5 :: size_t) - 1)"
    by (simp add: c)
  have ne2: "\<not> rb_empty one_zero_two" and c2: "unat (rb_count one_zero_two) = 3"
    and z: "is_zero (one_zero_two\<lparr>output_idx := 4\<rparr>)"
    by (simp_all add: one_zero_two_def is_zero_def buffer_eval)
  have "is_zero (one_zero_two\<lparr>output_idx := output_idx one_zero_two + of_nat 1\<rparr>)"
    using z by (simp add: one_zero_two_def)
  with c2 have ex: "\<exists>k < unat (rb_count one_zero_two).
      is_zero (one_zero_two\<lparr>output_idx := output_idx one_zero_two + of_nat k\<rparr>)"
    by (intro exI [of _ 1]) simp
  note t1 = rb_pop_cstring_limit_0 [of abcd junk is_zero Continue]
  from ne nz t1
  have "rb_pop_cstring abcd junk 0 =
     (4, abcd\<lparr>output_idx := 10\<rparr>, junk(0 := 97, 1 := 98, 2 := 99, 3 := 100, 4 := 0)) \<and>
   rb_pop_string_cond is_zero Continue abcd junk 0 = rb_pop_cstring abcd junk 0"
    unfolding c(1) u i m by simp
  moreover from ne l5 t1
  have "rb_pop_string_cond is_zero Continue abcd junk 0 = rb_pop_string_cond is_zero Continue abcd junk 5"
    by blast
  moreover from ne2 ex rb_pop_cstring_limit_0 [of one_zero_two junk is_zero Continue]
  have "unat (fst (rb_pop_string_cond is_zero Continue one_zero_two junk 0)) < 3 \<and>
   snd (snd (rb_pop_string_cond is_zero Continue one_zero_two junk 0))
     (unat (fst (rb_pop_string_cond is_zero Continue one_zero_two junk 0))) = 0"
    unfolding c2 by blast
  moreover have "\<not> is_zero (abcd\<lparr>output_idx := 6\<rparr>)" "\<not> is_zero (abcd\<lparr>output_idx := 7\<rparr>)"
    "\<not> is_zero (abcd\<lparr>output_idx := 8\<rparr>)" "\<not> is_zero (abcd\<lparr>output_idx := 9\<rparr>)"
    by (simp_all add: is_zero_def abcd_def buffer_eval)
  ultimately show ?thesis using ne c l5 ne2 c2 z by simp
qed

section \<open>\<^verbatim>\<open>push_string\<close>\<close>

text \<open>
  What the loop of \<^verbatim>\<open>push_string\<close> does: on a buffer that is not full, nothing; on a full
  buffer, with a length that is not zero, it stores the first source element over the cell
  at \<^verbatim>\<open>input\<close> (the oldest element) and advances \<^verbatim>\<open>input\<close>, once.
\<close>

lemma push_string_loop_not_full:
  "\<not> rb_full rb \<Longrightarrow> push_string_loop rb src len count = (count, rb)"
  by (subst push_string_loop.simps) simp

lemma rb_push_string_not_full: "\<not> rb_full rb \<Longrightarrow> rb_push_string rb src len = (0, rb)"
  by (simp add: rb_push_string_def push_string_loop_not_full)

lemma rb_push_string_full:
  assumes "rb_full rb" and "len \<noteq> 0"
  shows "rb_push_string rb src len =
           (1, rb\<lparr>data_buffer := (data_buffer rb)[RINGBUF_WRAP rb (input rb) := src 0],
                 input := input rb + 1\<rparr>)"
proof -
  let ?rb = "rb\<lparr>data_buffer := (data_buffer rb)[RINGBUF_WRAP rb (input rb) := src 0]\<rparr>"
  from assms(1) have "\<not> rb_full (rb\<lparr>data_buffer := (data_buffer rb)[RINGBUF_WRAP rb (input rb) := src 0],
      input := input rb + 1\<rparr>)"
    by (rule full_not_full_after_store) simp
  then have "push_string_loop (?rb\<lparr>input := input ?rb + 1\<rparr>) src (len - 1) (0 + 1) =
     (0 + 1, ?rb\<lparr>input := input ?rb + 1\<rparr>)"
    by (intro push_string_loop_not_full) simp
  with assms show ?thesis
    by (simp add: rb_push_string_def push_string_loop.simps [of rb] RINGBUF_CURR_i_set_def)
qed

text \<open>
  C1. The comments in the loop header read "Check end of source... and available space",
  the condition is \<^verbatim>\<open>len && NAME_full( rb )\<close>. For the spec's example, the source
  \<open>1 2 3 4\<close> and an empty buffer of capacity 8, the call returns 0 and the buffer stays
  empty, where the claim has \<open>min(4, 8 - 0) = 4\<close> elements transferred. On a full buffer of
  capacity 2 the call returns 1, has overwritten the oldest element and leaves a count of 3,
  where the claim has \<open>min(4, 2 - 2) = 0\<close>.
\<close>

theorem rb_push_string_inverted:
  "rb_empty fresh8 \<and> rb_push_string fresh8 src1234 4 = (0, fresh8) \<and>
   rb_full full2 \<and>
   rb_push_string full2 src1234 4 =
     (1, \<lparr>input = 4, output_idx = 1, data_buffer = [8, 1], push_callback = None\<rparr>)"
  by (simp add: rb_push_string_def fresh8_def full2_def src1234_def rb_init_def buffer_eval
      push_string_loop.simps)


section \<open>The invariant \<^verbatim>\<open>0 <= count <= N\<close>\<close>

lemma not_full_less:
  assumes "rb_inv rb" and "\<not> rb_full rb"
  shows "unat (rb_count rb) < length (data_buffer rb)"
proof -
  have "unat (rb_count rb) \<noteq> length (data_buffer rb)"
  proof
    assume "unat (rb_count rb) = length (data_buffer rb)"
    then have "of_nat (unat (rb_count rb)) = (of_nat (length (data_buffer rb)) :: size_t)"
      by simp
    then have "rb_full rb"
      by (simp add: rb_full_def BUFFER_LEN_def ARRAY_COUNT_def)
    with assms(2) show False ..
  qed
  with assms(1) show ?thesis
    by (simp add: rb_inv_def)
qed

lemma rb_inv_input_Suc:
  assumes "unat (rb_count rb) < length (data_buffer rb)"
    and "input rb' = input rb + 1" and "output_idx rb' = output_idx rb"
    and "length (data_buffer rb') = length (data_buffer rb)"
  shows "rb_inv rb'"
proof -
  have "unat (x + 1) \<le> unat x + 1" for x :: index_t
    by (simp add: unat_word_ariths)
  from this [of "input rb - output_idx rb"]
  have "unat (input rb + 1 - output_idx rb) \<le> unat (input rb - output_idx rb) + 1"
    by (simp only: add_diff_eq [symmetric] add.commute [of _ 1])
  then have "unat (rb_count rb') \<le> unat (rb_count rb) + 1"
    using assms(2,3) by (simp add: unat_rb_count)
  with assms(1,4) show ?thesis
    by (simp add: rb_inv_def)
qed

lemma rb_inv_same_cursors:
  assumes "rb_inv rb" and "input rb' = input rb" and "output_idx rb' = output_idx rb"
    and "length (data_buffer rb') = length (data_buffer rb)"
  shows "rb_inv rb'"
  using assms by (simp add: rb_inv_def unat_rb_count)

lemma rb_inv_frame:
  assumes "rb_inv rb" and "data_buffer rb' = data_buffer rb"
    and "unat (rb_count rb') \<le> unat (rb_count rb)"
  shows "rb_inv rb'"
  using assms by (simp add: rb_inv_def)

lemma rb_inv_init: "rb_inv (rb_init rb cb)"
  by (simp add: rb_inv_def rb_init_def rb_count_def)

lemma rb_inv_pop_back: "rb_inv rb \<Longrightarrow> rb_inv (snd (rb_pop_back rb))"
  by (cases "rb_empty rb")
     (auto simp add: rb_pop_back_def rb_empty_def unat_rb_count_pop intro: rb_inv_frame)

lemma rb_inv_peek: "rb_inv rb \<Longrightarrow> rb_inv (snd (rb_peek rb offset))"
  by (simp add: rb_peek_def)

lemma rb_inv_pop_string_cond:
  assumes "rb_inv rb"
  shows "rb_inv (fst (snd (rb_pop_string_cond COND BEHAV rb dest limit)))"
proof (cases "rb_empty rb")
  case True
  with assms show ?thesis by (simp add: rb_pop_string_cond_def)
next
  case False
  obtain n rb' dest' where l: "pop_string_cond_loop COND BEHAV rb dest limit 0 = (n, rb', dest')"
    by (cases "pop_string_cond_loop COND BEHAV rb dest limit 0") auto
  from pop_string_cond_loop_frame [OF l] assms have "rb_inv rb'"
    by (auto intro: rb_inv_frame)
  with False l show ?thesis
    by (simp add: rb_pop_string_cond_def)
qed

lemma rb_pop_cstring_as_cond:
  "rb_pop_cstring rb dest limit = rb_pop_string_cond (\<lambda>_. False) Continue rb dest limit"
  by (simp add: rb_pop_cstring_def rb_pop_string_cond_def pop_string_cond_loop_no_match)

lemma rb_inv_pop_cstring:
  "rb_inv rb \<Longrightarrow> rb_inv (fst (snd (rb_pop_cstring rb dest limit)))"
  by (simp add: rb_pop_cstring_as_cond rb_inv_pop_string_cond)

lemma pop_string_loop_as_cond:
  "pop_string_loop rb dest limit count =
     pop_string_cond_loop (\<lambda>_. False) Continue rb dest (limit + 1) count"
  by (simp add: pop_string_cond_loop_no_match pop_cstring_loop_eq)

lemma rb_inv_pop_string:
  assumes "rb_inv rb"
  shows "rb_inv (fst (snd (rb_pop_string rb dest limit)))"
proof (cases "rb_empty rb")
  case True
  with assms show ?thesis by (simp add: rb_pop_string_def)
next
  case False
  obtain n rb' dest' where l: "pop_string_loop rb dest limit 0 = (n, rb', dest')"
    by (cases "pop_string_loop rb dest limit 0") auto
  then have "pop_string_cond_loop (\<lambda>_. False) Continue rb dest (limit + 1) 0 = (n, rb', dest')"
    by (simp add: pop_string_loop_as_cond)
  from pop_string_cond_loop_frame [OF this] assms have "rb_inv rb'"
    by (auto intro: rb_inv_frame)
  with False l show ?thesis
    by (simp add: rb_pop_string_def)
qed

lemma rb_inv_push_front_None:
  assumes "rb_inv rb" and "push_callback rb = None"
  shows "rb_inv (snd (rb_push_front rb v))"
proof (cases "rb_full rb")
  case True
  with assms show ?thesis by (simp add: rb_push_front_def)
next
  case False
  with assms(1) have "unat (rb_count rb) < length (data_buffer rb)"
    by (rule not_full_less)
  then have "rb_inv (rb\<lparr>data_buffer := (data_buffer rb)[RINGBUF_WRAP rb (input rb) := v],
                       input := input rb + 1\<rparr>)"
    by (rule rb_inv_input_Suc) simp_all
  with False assms(2) show ?thesis
    by (simp add: rb_push_front_def RINGBUF_CURR_i_set_def)
qed

lemma rb_inv_push_front_Some:
  assumes "rb_inv rb" and "push_callback rb = Some cb" and "keeps_cursors cb rb v"
  shows "rb_inv (snd (rb_push_front rb v))"
proof (cases "rb_full rb")
  case True
  with assms show ?thesis by (simp add: rb_push_front_def)
next
  case False
  obtain ok rb' where c: "call_push_callback cb rb v = (ok, rb')"
    by (cases "call_push_callback cb rb v") auto
  with assms(3) have k: "input rb' = input rb" "output_idx rb' = output_idx rb"
    "length (data_buffer rb') = length (data_buffer rb)"
    by (simp_all add: keeps_cursors_def)
  show ?thesis
  proof (cases ok)
    case False
    from assms(1) k have "rb_inv rb'"
      by (rule rb_inv_same_cursors)
    with \<open>\<not> rb_full rb\<close> assms(2) c False show ?thesis
      by (simp add: rb_push_front_def)
  next
    case True
    from assms(1) \<open>\<not> rb_full rb\<close> have "unat (rb_count rb) < length (data_buffer rb)"
      by (rule not_full_less)
    then have "rb_inv (rb'\<lparr>input := input rb' + 1\<rparr>)"
      by (rule rb_inv_input_Suc) (simp_all add: k)
    with \<open>\<not> rb_full rb\<close> assms(2) c True show ?thesis
      by (simp add: rb_push_front_def)
  qed
qed


text \<open>
  C2, as amended. Initialisation establishes the invariant. From every buffer that satisfies
  it (so from every buffer reached from initialisation through these operations),
  \<^verbatim>\<open>pop_back\<close>, \<^verbatim>\<open>peek\<close>, \<^verbatim>\<open>pop_string\<close>, \<^verbatim>\<open>pop_cstring\<close> and the conditional pop lead
  to a buffer that satisfies it, and so does \<^verbatim>\<open>push_front\<close> when no callback is installed
  or when the installed callback leaves the cursors alone. Nothing is said of
  \<^verbatim>\<open>push_string\<close>.
\<close>

theorem rb_inv_preserved:
  "rb_inv (rb_init rb cb) \<and>
   (rb_inv rb \<longrightarrow>
      rb_inv (snd (rb_pop_back rb)) \<and>
      rb_inv (snd (rb_peek rb offset)) \<and>
      rb_inv (fst (snd (rb_pop_string rb dest limit))) \<and>
      rb_inv (fst (snd (rb_pop_cstring rb dest limit))) \<and>
      rb_inv (fst (snd (rb_pop_string_cond COND BEHAV rb dest limit))) \<and>
      (push_callback rb = None \<longrightarrow> rb_inv (snd (rb_push_front rb v))) \<and>
      (\<forall>f. push_callback rb = Some f \<and> keeps_cursors f rb v \<longrightarrow> rb_inv (snd (rb_push_front rb v))))"
  by (simp add: rb_inv_init rb_inv_pop_back rb_inv_peek rb_inv_pop_string rb_inv_pop_cstring
      rb_inv_pop_string_cond rb_inv_push_front_None rb_inv_push_front_Some)


text \<open>
  The claim as it stands fails. With the header's example callback, which advances
  \<^verbatim>\<open>input\<close> itself: initialise a buffer of capacity 2, push, pop, push; the last push is
  accepted and leaves a count of 3. And (the defect of C1) without a callback:
  initialise, push, push, then \<^verbatim>\<open>push_string\<close> of one element leaves a count of 3.
\<close>

theorem rb_inv_counterexample:
  "rb_inv one_pushed_popped \<and>
   fst (rb_push_front one_pushed_popped 9) = True \<and>
   length (data_buffer (snd (rb_push_front one_pushed_popped 9))) = 2 \<and>
   rb_count (snd (rb_push_front one_pushed_popped 9)) = 3 \<and>
   \<not> rb_inv (snd (rb_push_front one_pushed_popped 9)) \<and>
   rb_inv two_pushed \<and>
   length (data_buffer (snd (rb_push_string two_pushed src1234 1))) = 2 \<and>
   rb_count (snd (rb_push_string two_pushed src1234 1)) = 3 \<and>
   \<not> rb_inv (snd (rb_push_string two_pushed src1234 1))"
  by (simp add: one_pushed_popped_def two_pushed_def one_of_two_def src1234_def rb_inv_def
      rb_init_def rb_push_front_def rb_pop_back_def rb_push_string_def push_string_loop.simps
      call_push_callback_def push_front_callback_def ring_buffer_data.truncate_def buffer_eval)

theorem rb_inv_preserved_witness:
  "rb_inv (rb_init two_left None) \<and>
   rb_inv two_left \<and> push_callback two_left = None \<and>
   rb_inv (snd (rb_pop_back two_left)) \<and>
   rb_inv (snd (rb_peek two_left 1)) \<and>
   rb_inv (fst (snd (rb_pop_string two_left junk 2))) \<and>
   rb_inv (fst (snd (rb_pop_cstring two_left junk 2))) \<and>
   rb_inv (fst (snd (rb_pop_string_cond is_zero Continue two_left junk 2))) \<and>
   rb_inv (snd (rb_push_front two_left 6)) \<and>
   rb_inv (one_of_two (Some store_callback)) \<and>
   keeps_cursors store_callback (one_of_two (Some store_callback)) 9 \<and>
   rb_inv (snd (rb_push_front (one_of_two (Some store_callback)) 9))"
proof -
  have a: "rb_inv two_left" "push_callback two_left = None"
    by (simp_all add: two_left_def rb_inv_def buffer_eval)
  have b: "rb_inv (one_of_two (Some store_callback))"
    "push_callback (one_of_two (Some store_callback)) = Some store_callback"
    "keeps_cursors store_callback (one_of_two (Some store_callback)) 9"
    by (simp_all add: one_of_two_def rb_inv_def keeps_cursors_def call_push_callback_def
        store_callback_def ring_buffer_data.truncate_def buffer_eval)
  from a rb_inv_preserved [where rb = two_left and cb = None and offset = 1 and dest = junk
      and limit = 2 and COND = is_zero and BEHAV = Continue and v = 6]
  have "rb_inv (rb_init two_left None) \<and>
   rb_inv (snd (rb_pop_back two_left)) \<and>
   rb_inv (snd (rb_peek two_left 1)) \<and>
   rb_inv (fst (snd (rb_pop_string two_left junk 2))) \<and>
   rb_inv (fst (snd (rb_pop_cstring two_left junk 2))) \<and>
   rb_inv (fst (snd (rb_pop_string_cond is_zero Continue two_left junk 2))) \<and>
   rb_inv (snd (rb_push_front two_left 6))"
    by simp
  moreover from b rb_inv_preserved [where rb = "one_of_two (Some store_callback)" and v = 9]
  have "rb_inv (snd (rb_push_front (one_of_two (Some store_callback)) 9))"
    by simp
  ultimately show ?thesis using a b by simp
qed

end
